theory Spec2Isabelle
  imports Complex_Main "HOL-Library.Multiset" "HOL-Library.AList" "HOL-Library.Word"
begin

section \<open>Tile cache and fetch jobs (Source.cpp, lines 97-320)\<close>

text \<open>
  The cache \<open>gCache\<close> is a \<open>std::unordered_map<std::wstring, Img>\<close>. It is modelled as an
  association list with pairwise distinct keys: \<open>find\<close> is \<open>map_of\<close>, \<open>emplace\<close> adds a pair
  when the key is absent, \<open>erase\<close> removes the pair of a key. The iteration order of an
  unordered map and the order \<open>std::sort\<close> gives to equal elements are both unspecified, so
  the sort is a parameter \<open>srt\<close> of the model, constrained only by \<open>is_sort\<close>.

  A bitmap pointer is \<open>None\<close> for \<open>nullptr\<close> and \<open>Some h\<close> for a handle \<open>h\<close>. A
  \<open>steady_clock::time_point\<close> is its tick count. Every reading of the clock and every result
  of the image decoder is an argument of the call that makes it.
\<close>

type_synonym byte = "8 word"
type_synonym bitmap = nat
type_synonym time_point = nat
type_synonym key = string

record Img =
  bytes :: "byte list"
  bmp :: "bitmap option"
  lastUsed :: time_point

type_synonym cache = "(key \<times> Img) list"
type_synonym sorter = "(key \<times> time_point) list \<Rightarrow> (key \<times> time_point) list"
type_synonym decoder = "byte list \<Rightarrow> bitmap option"

text \<open>
  The globals the cache code reads and writes, with history fields that record its calls
  into the environment: the jobs handed to \<open>ThreadPool::enqueue\<close>, the bitmaps on which
  \<open>Release\<close> was called, the byte vectors passed to \<open>LoadPngToD2D\<close> (each with the key
  of the entry they came from), and the number of \<open>WM_TILE_READY\<close> messages posted.
\<close>

record globals =
  gCache :: cache
  gPool :: bool
  hwnd :: bool
  enqueued :: "(key \<times> bool) list"
  released :: "bitmap list"
  decode_calls :: "(key \<times> byte list) list"
  posted :: nat

definition kCacheLimit :: nat where
  "kCacheLimit = 256"

definition is_sort :: "sorter \<Rightarrow> bool" where
  "is_sort srt \<longleftrightarrow> (\<forall>v. sorted (map snd (srt v)) \<and> mset (srt v) = mset v)"

definition cache_emplace :: "key \<Rightarrow> Img \<Rightarrow> cache \<Rightarrow> cache" where
  "cache_emplace k im c = (if map_of c k = None then c @ [(k, im)] else c)"

definition cache_erase :: "key \<Rightarrow> cache \<Rightarrow> cache" where
  "cache_erase k c = filter (\<lambda>p. fst p \<noteq> k) c"

definition cache_assign :: "key \<Rightarrow> Img \<Rightarrow> cache \<Rightarrow> cache" where
  "cache_assign k im c = map (\<lambda>p. if fst p = k then (k, im) else p) c"

text \<open>\<open>SAFE_RELEASE(p)\<close>: calls \<open>Release\<close> when the pointer is not null.\<close>

definition SAFE_RELEASE :: "bitmap option \<Rightarrow> bitmap list \<Rightarrow> bitmap list" where
  "SAFE_RELEASE p rel = (case p of None \<Rightarrow> rel | Some b \<Rightarrow> rel @ [b])"

text \<open>The vector \<open>v\<close> of \<open>PurgeOldTiles\<close>: every key with its \<open>lastUsed\<close>.\<close>

definition stamps :: "cache \<Rightarrow> (key \<times> time_point) list" where
  "stamps c = map (\<lambda>kv. (fst kv, lastUsed (snd kv))) c"

text \<open>The loop of \<open>PurgeOldTiles\<close> over the first \<open>removeCount\<close> keys of the sorted vector.\<close>

fun purge_loop :: "key list \<Rightarrow> globals \<Rightarrow> globals" where
  "purge_loop [] st = st"
| "purge_loop (k # ks) st =
     purge_loop ks
       (case map_of (gCache st) k of
          None \<Rightarrow> st
        | Some it \<Rightarrow> st\<lparr>released := SAFE_RELEASE (bmp it) (released st),
                         gCache := cache_erase k (gCache st)\<rparr>)"

definition PurgeOldTiles :: "sorter \<Rightarrow> globals \<Rightarrow> globals" where
  "PurgeOldTiles srt st =
     (if length (gCache st) \<le> kCacheLimit then st
      else
        let v = srt (stamps (gCache st));
            removeCount = length v - kCacheLimit
        in purge_loop (map fst (take removeCount v)) st)"

text \<open>
  \<open>GetOrFetchBitmap\<close> returns the pair of \<open>*outBmp\<close> and its boolean result, with the new
  globals. The job it enqueues is recorded by its captured key and \<open>isOverlay\<close> flag.
\<close>

definition GetOrFetchBitmap ::
  "sorter \<Rightarrow> decoder \<Rightarrow> time_point \<Rightarrow> key \<Rightarrow> bool \<Rightarrow> globals
     \<Rightarrow> (bitmap option \<times> bool) \<times> globals" where
  "GetOrFetchBitmap srt dec now k isOverlay st =
     (case map_of (gCache st) k of
        Some it \<Rightarrow>
          let it1 = it\<lparr>lastUsed := now\<rparr>;
              lazy = (bmp it1 = None \<and> bytes it1 \<noteq> []);
              it2 = (if lazy then it1\<lparr>bmp := dec (bytes it1), bytes := []\<rparr> else it1);
              st1 = st\<lparr>gCache := cache_assign k it2 (gCache st),
                       decode_calls := (if lazy then decode_calls st @ [(k, bytes it1)]
                                        else decode_calls st)\<rparr>
          in ((bmp it2, bmp it2 \<noteq> None), st1)
      | None \<Rightarrow>
          let im = \<lparr>bytes = [], bmp = None, lastUsed = now\<rparr>;
              st1 = st\<lparr>gCache := cache_emplace k im (gCache st)\<rparr>;
              st2 = PurgeOldTiles srt st1;
              st3 = (if gPool st2 then st2\<lparr>enqueued := enqueued st2 @ [(k, isOverlay)]\<rparr>
                     else st2)
          in ((None, False), st3))"

subsection \<open>HttpGet and the fetch job\<close>

text \<open>
  What the network does during one \<open>HttpGet\<close> is its argument. The body is the finite
  sequence of outcomes of the read loop: \<open>WinHttpQueryDataAvailable\<close> fails
  (\<open>QueryFailed\<close>), or reports zero bytes (\<open>EndOfData\<close>), or reports \<open>sz\<close> bytes, after
  which \<open>WinHttpReadData\<close> fails (\<open>ReadFailed sz\<close>) or delivers the first \<open>dw \<le> sz\<close> bytes
  of \<open>dat\<close> (\<open>Chunk sz dat\<close>). The loop tests \<open>sz == 0\<close> before it reads, so a report of
  zero bytes ends it in every case.
\<close>

datatype body =
    QueryFailed
  | EndOfData
  | ReadFailed nat
  | Chunk nat "byte list" body

datatype http_exchange =
    OpenFailed
  | ConnectFailed
  | OpenRequestFailed
  | SendOrReceiveFailed
  | Response "32 word" body

text \<open>The \<open>do ... while (true)\<close> loop: the result is \<open>ok\<close> and the vector \<open>out\<close>.\<close>

fun read_loop :: "byte list \<Rightarrow> body \<Rightarrow> bool \<times> byte list" where
  "read_loop out QueryFailed = (False, out)"
| "read_loop out EndOfData = (True, out)"
| "read_loop out (ReadFailed sz) =
     (if sz = 0 then (True, out) else (False, out @ replicate sz 0))"
| "read_loop out (Chunk sz dat rest) =
     (if sz = 0 then (True, out) else read_loop (out @ take sz dat) rest)"

definition HttpGet :: "http_exchange \<Rightarrow> byte list \<Rightarrow> bool \<times> byte list" where
  "HttpGet ex out =
     (case ex of
        Response status b \<Rightarrow>
          let (ok, out') = (if status = 200 then read_loop out b else (False, out))
          in (ok \<and> out' \<noteq> [], out')
      | _ \<Rightarrow> (False, out))"

text \<open>The part of the job that runs under the cache lock, after \<open>HttpGet\<close> returned.\<close>

definition fetch_commit :: "key \<Rightarrow> bool \<Rightarrow> byte list \<Rightarrow> globals \<Rightarrow> globals" where
  "fetch_commit k ok buf st =
     (case map_of (gCache st) k of
        None \<Rightarrow> st
      | Some it \<Rightarrow>
          if ok then
            st\<lparr>gCache := cache_assign k (it\<lparr>bytes := buf\<rparr>) (gCache st),
               posted := (if hwnd st then posted st + 1 else posted st)\<rparr>
          else st\<lparr>gCache := cache_erase k (gCache st)\<rparr>)"

definition fetch_job :: "key \<Rightarrow> http_exchange \<Rightarrow> globals \<Rightarrow> globals" where
  "fetch_job k ex st = (let (ok, buf) = HttpGet ex [] in fetch_commit k ok buf st)"

subsection \<open>Runs of the cache\<close>

text \<open>
  The cache lock makes every call of \<open>GetOrFetchBitmap\<close> and every commit of a job atomic,
  so an execution is a sequence of such events.
\<close>

datatype event =
    Call key bool time_point decoder
  | Fetched key http_exchange

fun step :: "sorter \<Rightarrow> event \<Rightarrow> globals \<Rightarrow> globals" where
  "step srt (Call k isOverlay now dec) st = snd (GetOrFetchBitmap srt dec now k isOverlay st)"
| "step srt (Fetched k ex) st = fetch_job k ex st"

fun run :: "sorter \<Rightarrow> event list \<Rightarrow> globals \<Rightarrow> globals" where
  "run srt [] st = st"
| "run srt (e # es) st = run srt es (step srt e st)"

definition startup :: "bool \<Rightarrow> bool \<Rightarrow> globals" where
  "startup pool h =
     \<lparr>gCache = [], gPool = pool, hwnd = h, enqueued = [], released = [],
      decode_calls = [], posted = 0\<rparr>"

definition cache_inv :: "globals \<Rightarrow> bool" where
  "cache_inv st \<longleftrightarrow> distinct (map fst (gCache st)) \<and> length (gCache st) \<le> kCacheLimit"


subsection \<open>Notions used to state the properties of the cache\<close>

text \<open>The keys the loop of \<open>PurgeOldTiles\<close> visits when the cache is over its limit.\<close>

definition victims :: "sorter \<Rightarrow> cache \<Rightarrow> key list" where
  "victims srt c = map fst (take (length c - kCacheLimit) (srt (stamps c)))"

text \<open>The bitmap handles held by a list of entries.\<close>

definition bitmaps_of :: "cache \<Rightarrow> bitmap list" where
  "bitmaps_of c = List.map_filter (\<lambda>p. bmp (snd p)) c"

text \<open>The entries of the cache before an operation that are no longer there after it.\<close>

definition removed_entries :: "globals \<Rightarrow> globals \<Rightarrow> cache" where
  "removed_entries st st' = filter (\<lambda>p. p \<notin> set (gCache st')) (gCache st)"

text \<open>
  The three states of an entry, as the tests of \<open>GetOrFetchBitmap\<close> tell them apart: a
  bitmap is there, or bytes and no bitmap, or neither.
\<close>

datatype tile_state = Pending | BytesReady | Decoded

definition entry_state :: "Img \<Rightarrow> tile_state" where
  "entry_state im =
     (if bmp im \<noteq> None then Decoded else if bytes im \<noteq> [] then BytesReady else Pending)"





text \<open>Every call in the run reads the clock before \<open>t\<close>.\<close>

fun calls_before :: "time_point \<Rightarrow> event list \<Rightarrow> bool" where
  "calls_before t [] = True"
| "calls_before t (e # es) =
     ((case e of Call k isOverlay now dec \<Rightarrow> now < t | Fetched k ex \<Rightarrow> True)
      \<and> calls_before t es)"


text \<open>The decoder calls made for the entry of a key so far.\<close>

definition decodes_for :: "key \<Rightarrow> globals \<Rightarrow> byte list list" where
  "decodes_for k st = map snd (filter (\<lambda>d. fst d = k) (decode_calls st))"

text \<open>No job for the key \<open>k\<close> commits in the run.\<close>

fun no_commit :: "key \<Rightarrow> event list \<Rightarrow> bool" where
  "no_commit k [] = True"
| "no_commit k (e # es) =
     ((case e of Call k' isOverlay now dec \<Rightarrow> True | Fetched k' ex \<Rightarrow> k' \<noteq> k)
      \<and> no_commit k es)"

text \<open>The key \<open>k\<close> has no entry, or an entry that holds no bytes.\<close>

definition no_bytes :: "key \<Rightarrow> globals \<Rightarrow> bool" where
  "no_bytes k st = (case map_of (gCache st) k of None \<Rightarrow> True | Some it \<Rightarrow> bytes it = [])"


text \<open>A body read to its end, and the bytes it delivers.\<close>

fun completes :: "body \<Rightarrow> bool" where
  "completes QueryFailed = False"
| "completes EndOfData = True"
| "completes (ReadFailed sz) = (sz = 0)"
| "completes (Chunk sz dat rest) = (sz = 0 \<or> completes rest)"

fun delivered :: "body \<Rightarrow> byte list" where
  "delivered (Chunk sz dat rest) = (if sz = 0 then [] else take sz dat @ delivered rest)"
| "delivered b = []"

text \<open>A cache over its limit, and a short run, for the instances below.\<close>

definition crowded :: globals where
  "crowded =
     \<lparr>gCache = map (\<lambda>i. (replicate i CHR ''t'', \<lparr>bytes = [], bmp = Some i, lastUsed = 1000 - i\<rparr>))
                 [0..<300],
      gPool = True, hwnd = True, enqueued = [], released = [], decode_calls = [], posted = 0\<rparr>"

definition png :: "byte list" where
  "png = [137, 80, 78, 71]"

text \<open>Two decoders: one that fails on every input, one that yields the handle \<open>h\<close>.\<close>

definition decode_fails :: decoder where
  "decode_fails b = None"

definition decode_as :: "bitmap \<Rightarrow> decoder" where
  "decode_as h b = Some h"

definition three_calls :: "event list" where
  "three_calls =
     [Call ''t'' True 2 decode_fails, Call ''u'' False 3 decode_fails,
      Fetched ''t'' (Response 200 (Chunk 4 png EndOfData)),
      Call ''t'' True 4 (decode_as 1), Call ''t'' True 5 (decode_as 2)]"

definition later_calls :: "event list" where
  "later_calls = [Call ''t'' True 3 (decode_as 8), Call ''u'' True 4 decode_fails]"




text \<open>The tile \<open>t\<close> is requested and its bytes arrive.\<close>

definition fetched_run :: "event list" where
  "fetched_run =
     [Call ''t'' True 1 decode_fails, Fetched ''t'' (Response 200 (Chunk 4 png EndOfData))]"

section \<open>Projection and overlay zoom (Source.cpp, lines 161-177 and 442-523)\<close>

text \<open>
  A \<open>double\<close> is taken as a real number and \<open>M_PI\<close> as \<open>pi\<close>. An \<open>int\<close> has 32 bits; an
  \<open>int\<close> operation whose result does not fit has no defined value (\<open>None\<close>).
\<close>

definition TILE_SIZE :: int where
  "TILE_SIZE = 256"

definition MIN_DL_ZOOM :: int where
  "MIN_DL_ZOOM = 4"

definition MAX_DL_ZOOM :: int where
  "MAX_DL_ZOOM = 13"

definition in_int :: "int \<Rightarrow> bool" where
  "in_int i \<longleftrightarrow> - 2147483648 \<le> i \<and> i \<le> 2147483647"

definition shl1 :: "int \<Rightarrow> int option" where
  "shl1 z = (if 0 \<le> z \<and> z \<le> 30 then Some (2 ^ nat z) else None)"

definition int_mul :: "int \<Rightarrow> int \<Rightarrow> int option" where
  "int_mul a b = (if in_int (a * b) then Some (a * b) else None)"

definition int_sub :: "int \<Rightarrow> int \<Rightarrow> int option" where
  "int_sub a b = (if in_int (a - b) then Some (a - b) else None)"

text \<open>The conversion \<open>(int)x\<close> of a \<open>double\<close> with an integral value.\<close>

definition to_int :: "real \<Rightarrow> int option" where
  "to_int x = (if in_int \<lfloor>x\<rfloor> then Some \<lfloor>x\<rfloor> else None)"

definition std_clamp :: "'a::linorder \<Rightarrow> 'a \<Rightarrow> 'a \<Rightarrow> 'a" where
  "std_clamp v lo hi = (if v < lo then lo else if hi < v then hi else v)"

definition LonLatToWorldX :: "real \<Rightarrow> int \<Rightarrow> real option" where
  "LonLatToWorldX lon z =
     (case shl1 z of
        None \<Rightarrow> None
      | Some p \<Rightarrow>
          (case int_mul TILE_SIZE p of
             None \<Rightarrow> None
           | Some s \<Rightarrow> Some (real_of_int s * ((lon + 180) / 360))))"

definition LonLatToWorldY :: "real \<Rightarrow> int \<Rightarrow> real option" where
  "LonLatToWorldY lat_deg z =
     (case shl1 z of
        None \<Rightarrow> None
      | Some p \<Rightarrow>
          let s = real_of_int TILE_SIZE * real_of_int p;
              lat = std_clamp lat_deg (- 85.05112878) 85.05112878;
              rad = lat * pi / 180;
              sy = ln (tan (pi / 4 + rad / 2))
          in Some (s * (1 - sy / pi) / 2))"

definition WorldXToLon :: "real \<Rightarrow> int \<Rightarrow> real option" where
  "WorldXToLon wx z =
     (case shl1 z of
        None \<Rightarrow> None
      | Some p \<Rightarrow>
          (case int_mul TILE_SIZE p of
             None \<Rightarrow> None
           | Some s \<Rightarrow> Some (wx / real_of_int s * 360 - 180)))"

definition WorldYToLat :: "real \<Rightarrow> int \<Rightarrow> real option" where
  "WorldYToLat wy z =
     (case shl1 z of
        None \<Rightarrow> None
      | Some p \<Rightarrow>
          (case int_mul TILE_SIZE p of
             None \<Rightarrow> None
           | Some si \<Rightarrow>
               let s = real_of_int si;
                   y = 2 * (1 - wy / s)
               in Some (180 / pi * arctan (sinh (y * pi)))))"

definition GetJmaZoomLevel :: "int \<Rightarrow> int" where
  "GetJmaZoomLevel zCurrent = std_clamp zCurrent MIN_DL_ZOOM MAX_DL_ZOOM"

text \<open>The candidate zoom of \<open>drawJmaOverlay\<close> for the view's zoom \<open>g.zoom\<close>.\<close>

definition zJMA_candidate :: "real \<Rightarrow> int option" where
  "zJMA_candidate zoom =
     (case to_int (real_of_int \<lfloor>zoom\<rfloor>) of
        None \<Rightarrow> None
      | Some current_floor_zoom \<Rightarrow>
          if zoom = real_of_int current_floor_zoom then int_sub current_floor_zoom 1
          else Some current_floor_zoom)"

definition zJMA :: "real \<Rightarrow> int option" where
  "zJMA zoom = map_option GetJmaZoomLevel (zJMA_candidate zoom)"

text \<open>The rule in the words of the specification, section 4.1.\<close>

definition spec_overlay_candidate :: "real \<Rightarrow> int" where
  "spec_overlay_candidate Z = (let f = \<lfloor>Z\<rfloor> in if Z = real_of_int f then f - 1 else f)"

definition spec_overlay_zoom :: "real \<Rightarrow> int" where
  "spec_overlay_zoom Z = max 4 (min 13 (spec_overlay_candidate Z))"

section \<open>Animation of the time index (Source.cpp, lines 412-418 and 577-589)\<close>

subsection \<open>Single precision\<close>





subsection \<open>The animation\<close>












section \<open>Properties of the cache\<close>

subsection \<open>The cache after an eviction\<close>

lemma map_of_cache_erase: "map_of (cache_erase k c) k' = (if k' = k then None else map_of c k')"
  by (induction c) (auto simp: cache_erase_def)

lemma cache_erase_absent: "map_of c k = None \<Longrightarrow> cache_erase k c = c"
  by (induction c) (auto simp: cache_erase_def)

lemma purge_loop_cache:
  "gCache (purge_loop ks st) = filter (\<lambda>p. fst p \<notin> set ks) (gCache st)"
proof (induction ks arbitrary: st)
  case Nil
  show ?case by simp
next
  case (Cons k ks)
  show ?case
  proof (cases "map_of (gCache st) k")
    case None
    then have "\<forall>p \<in> set (gCache st). fst p \<noteq> k"
      by (auto simp: map_of_eq_None_iff)
    then have "filter (\<lambda>p. fst p \<notin> set (k # ks)) (gCache st)
                 = filter (\<lambda>p. fst p \<notin> set ks) (gCache st)"
      by (intro filter_cong) auto
    with None Cons.IH [of st] show ?thesis by simp
  next
    case (Some it)
    have "filter (\<lambda>p. fst p \<notin> set (k # ks)) (gCache st)
            = filter (\<lambda>p. fst p \<notin> set ks) (cache_erase k (gCache st))"
      unfolding cache_erase_def filter_filter by (intro filter_cong) auto
    with Some Cons.IH show ?thesis by simp
  qed
qed

lemma keys_cache_assign: "map fst (cache_assign k im c) = map fst c"
  by (induction c) (auto simp: cache_assign_def)

lemma distinct_cache_erase: "distinct (map fst c) \<Longrightarrow> distinct (map fst (cache_erase k c))"
  by (simp add: cache_erase_def distinct_map_filter)

lemma length_cache_erase_le: "length (cache_erase k c) \<le> length c"
  by (simp add: cache_erase_def)

lemma distinct_cache_emplace:
  "distinct (map fst c) \<Longrightarrow> distinct (map fst (cache_emplace k im c))"
  by (auto simp: cache_emplace_def map_of_eq_None_iff)

lemma length_filter_keys:
  assumes "distinct (map fst c)" and "distinct ks" and "set ks \<subseteq> fst ` set c"
  shows "length (filter (\<lambda>p. fst p \<notin> set ks) c) = length c - length ks"
proof -
  let ?xs = "map fst c"
  have "length (filter (\<lambda>p. fst p \<notin> set ks) c) = length (filter (\<lambda>k. k \<notin> set ks) ?xs)"
    by (simp add: filter_map comp_def)
  also have "\<dots> = card ({k. k \<notin> set ks} \<inter> set ?xs)"
    using assms(1) by (rule distinct_length_filter)
  also have "{k. k \<notin> set ks} \<inter> set ?xs = set ?xs - set ks"
    by auto
  also have "card (set ?xs - set ks) = card (set ?xs) - card (set ks)"
    using assms(3) by (intro card_Diff_subset) auto
  also have "\<dots> = length c - length ks"
    using distinct_card [OF assms(1)] distinct_card [OF assms(2)] by simp
  finally show ?thesis .
qed

lemma keys_stamps: "map fst (stamps c) = map fst c"
  by (simp add: stamps_def comp_def)

lemma is_sort_mset: "is_sort srt \<Longrightarrow> mset (srt v) = mset v"
  by (simp add: is_sort_def)

lemma is_sort_sorted: "is_sort srt \<Longrightarrow> sorted (map snd (srt v))"
  by (simp add: is_sort_def)

lemma is_sort_length: "is_sort srt \<Longrightarrow> length (srt v) = length v"
  by (metis is_sort_mset size_mset)

lemma is_sort_set: "is_sort srt \<Longrightarrow> set (srt v) = set v"
  by (metis is_sort_mset set_mset_mset)

lemma is_sort_keys_distinct:
  assumes "is_sort srt" and "distinct (map fst c)"
  shows "distinct (map fst (srt (stamps c)))"
proof -
  have "mset (map fst (srt (stamps c))) = mset (map fst (stamps c))"
    using assms(1) by (simp add: is_sort_mset)
  then show ?thesis
    using assms(2) by (metis keys_stamps mset_eq_imp_distinct_iff)
qed

lemma PurgeOldTiles_eq:
  "is_sort srt \<Longrightarrow> PurgeOldTiles srt st =
     (if length (gCache st) \<le> kCacheLimit then st else purge_loop (victims srt (gCache st)) st)"
  by (simp add: PurgeOldTiles_def victims_def stamps_def Let_def is_sort_length)

lemma victims_distinct:
  "is_sort srt \<Longrightarrow> distinct (map fst c) \<Longrightarrow> distinct (victims srt c)"
  unfolding victims_def take_map [symmetric] by (rule distinct_take) (rule is_sort_keys_distinct)

lemma victims_subset:
  assumes "is_sort srt"
  shows "set (victims srt c) \<subseteq> fst ` set c"
proof -
  have "set (victims srt c) \<subseteq> fst ` set (srt (stamps c))"
    unfolding victims_def by (auto dest: in_set_takeD)
  also have "\<dots> = fst ` set (stamps c)"
    using assms by (simp add: is_sort_set)
  also have "\<dots> = fst ` set c"
    by (metis keys_stamps list.set_map)
  finally show ?thesis .
qed

lemma victims_length:
  "is_sort srt \<Longrightarrow> length (victims srt c) = length c - kCacheLimit"
  by (simp add: victims_def is_sort_length stamps_def)

lemma PurgeOldTiles_cache:
  "is_sort srt \<Longrightarrow> gCache (PurgeOldTiles srt st) =
     (if length (gCache st) \<le> kCacheLimit then gCache st
      else filter (\<lambda>p. fst p \<notin> set (victims srt (gCache st))) (gCache st))"
  by (simp add: PurgeOldTiles_eq purge_loop_cache)

lemma PurgeOldTiles_length:
  assumes "is_sort srt" and "distinct (map fst (gCache st))"
  shows "length (gCache (PurgeOldTiles srt st)) = min (length (gCache st)) kCacheLimit"
proof (cases "length (gCache st) \<le> kCacheLimit")
  case True
  then show ?thesis using assms(1) by (simp add: PurgeOldTiles_cache)
next
  case False
  have "length (filter (\<lambda>p. fst p \<notin> set (victims srt (gCache st))) (gCache st))
          = length (gCache st) - length (victims srt (gCache st))"
    using assms by (intro length_filter_keys victims_distinct victims_subset)
  with False assms(1) show ?thesis
    by (simp add: PurgeOldTiles_cache victims_length)
qed

lemma PurgeOldTiles_distinct:
  "is_sort srt \<Longrightarrow> distinct (map fst (gCache st))
     \<Longrightarrow> distinct (map fst (gCache (PurgeOldTiles srt st)))"
  by (simp add: PurgeOldTiles_cache distinct_map_filter)

subsection \<open>The bound on the size of the cache\<close>

lemma length_cache_assign: "length (cache_assign k im c) = length c"
  by (simp add: cache_assign_def)

lemma GetOrFetchBitmap_hit:
  "map_of (gCache st) k = Some it \<Longrightarrow>
   GetOrFetchBitmap srt dec now k isOverlay st =
     (if bmp it = None \<and> bytes it \<noteq> []
      then ((dec (bytes it), dec (bytes it) \<noteq> None),
            st\<lparr>gCache := cache_assign k \<lparr>bytes = [], bmp = dec (bytes it), lastUsed = now\<rparr> (gCache st),
               decode_calls := decode_calls st @ [(k, bytes it)]\<rparr>)
      else ((bmp it, bmp it \<noteq> None),
            st\<lparr>gCache := cache_assign k (it\<lparr>lastUsed := now\<rparr>) (gCache st)\<rparr>))"
  by (cases it) (simp add: GetOrFetchBitmap_def Let_def)

lemma GetOrFetchBitmap_miss:
  "map_of (gCache st) k = None \<Longrightarrow>
   GetOrFetchBitmap srt dec now k isOverlay st =
     ((None, False),
      (let st2 = PurgeOldTiles srt
                   (st\<lparr>gCache := gCache st @ [(k, \<lparr>bytes = [], bmp = None, lastUsed = now\<rparr>)]\<rparr>)
       in if gPool st2 then st2\<lparr>enqueued := enqueued st2 @ [(k, isOverlay)]\<rparr> else st2))"
  by (simp add: GetOrFetchBitmap_def Let_def cache_emplace_def)

lemma GetOrFetchBitmap_inv:
  assumes "is_sort srt" and "cache_inv st"
  shows "cache_inv (snd (GetOrFetchBitmap srt dec now k isOverlay st))"
proof (cases "map_of (gCache st) k")
  case None
  let ?st1 = "st\<lparr>gCache := gCache st @ [(k, \<lparr>bytes = [], bmp = None, lastUsed = now\<rparr>)]\<rparr>"
  have d: "distinct (map fst (gCache ?st1))"
    using assms(2) None by (auto simp: cache_inv_def map_of_eq_None_iff)
  have "cache_inv (PurgeOldTiles srt ?st1)"
    unfolding cache_inv_def
    using PurgeOldTiles_distinct [OF assms(1) d] PurgeOldTiles_length [OF assms(1) d]
    by simp
  then show ?thesis
    using None by (simp add: GetOrFetchBitmap_miss Let_def cache_inv_def)
next
  case (Some it)
  then show ?thesis
    using assms(2)
    by (simp add: GetOrFetchBitmap_hit cache_inv_def keys_cache_assign length_cache_assign)
qed

lemma fetch_commit_inv:
  assumes "cache_inv st"
  shows "cache_inv (fetch_commit k ok buf st)"
proof (cases "map_of (gCache st) k")
  case None
  then show ?thesis using assms by (simp add: fetch_commit_def)
next
  case (Some it)
  have "length (cache_erase k (gCache st)) \<le> kCacheLimit"
    using assms length_cache_erase_le [of k "gCache st"] by (simp add: cache_inv_def)
  then show ?thesis
    using assms Some
    by (simp add: fetch_commit_def cache_inv_def keys_cache_assign length_cache_assign
        distinct_cache_erase)
qed

lemma step_inv: "is_sort srt \<Longrightarrow> cache_inv st \<Longrightarrow> cache_inv (step srt e st)"
  by (cases e) (simp_all add: GetOrFetchBitmap_inv fetch_job_def fetch_commit_inv split: prod.split)

lemma run_inv: "is_sort srt \<Longrightarrow> cache_inv st \<Longrightarrow> cache_inv (run srt es st)"
  by (induction es arbitrary: st) (simp_all add: step_inv)

lemma startup_inv: "cache_inv (startup pool h)"
  by (simp add: startup_def cache_inv_def)


lemma GetOrFetchBitmap_length:
  assumes "is_sort srt" and "cache_inv st"
  shows "length (gCache (snd (GetOrFetchBitmap srt dec now k isOverlay st))) =
           (if map_of (gCache st) k = None then min (Suc (length (gCache st))) kCacheLimit
            else length (gCache st))"
proof (cases "map_of (gCache st) k")
  case None
  let ?st1 = "st\<lparr>gCache := gCache st @ [(k, \<lparr>bytes = [], bmp = None, lastUsed = now\<rparr>)]\<rparr>"
  have d: "distinct (map fst (gCache ?st1))"
    using assms(2) None by (auto simp: cache_inv_def map_of_eq_None_iff)
  show ?thesis
    using None PurgeOldTiles_length [OF assms(1) d]
    by (simp add: GetOrFetchBitmap_miss Let_def)
next
  case (Some it)
  then show ?thesis
    by (simp add: GetOrFetchBitmap_hit length_cache_assign)
qed

lemma is_sort_sort_key: "is_sort (sort_key snd)"
  by (simp add: is_sort_def)

text \<open>
  Claim C1. Starting from the empty cache, after every sequence of calls of
  \<open>GetOrFetchBitmap\<close>, interleaved in any way with commits of fetch jobs, the cache holds at
  most \<open>kCacheLimit\<close> = 256 entries. A further call that finds its key leaves the number of
  entries as it is; one that misses adds one entry and then evicts down to the limit.
\<close>

theorem cache_size_bounded:
  assumes "is_sort srt"
  shows "length (gCache (run srt es (startup pool h))) \<le> kCacheLimit
       \<and> length (gCache (snd (GetOrFetchBitmap srt dec now k isOverlay
            (run srt es (startup pool h))))) =
           (if map_of (gCache (run srt es (startup pool h))) k = None
            then min (Suc (length (gCache (run srt es (startup pool h))))) kCacheLimit
            else length (gCache (run srt es (startup pool h))))"
proof -
  have inv: "cache_inv (run srt es (startup pool h))"
    using assms startup_inv by (rule run_inv)
  then have "length (gCache (run srt es (startup pool h))) \<le> kCacheLimit"
    by (simp add: cache_inv_def)
  with GetOrFetchBitmap_length [OF assms inv] show ?thesis
    by (intro conjI)
qed

theorem cache_size_witness:
  "is_sort (sort_key snd)
   \<and> length (gCache (run (sort_key snd)
        (Call ''t'' True 1 decode_fails # three_calls) (startup True True))) \<le> kCacheLimit"
  using cache_size_bounded [OF is_sort_sort_key] is_sort_sort_key by blast

subsection \<open>What an eviction removes\<close>

lemma purge_loop_other:
  "gPool (purge_loop ks st) = gPool st \<and> hwnd (purge_loop ks st) = hwnd st
   \<and> enqueued (purge_loop ks st) = enqueued st
   \<and> decode_calls (purge_loop ks st) = decode_calls st
   \<and> posted (purge_loop ks st) = posted st"
  by (induction ks arbitrary: st) (simp_all split: option.split)

lemma purge_loop_released:
  assumes "distinct ks" and "\<forall>k \<in> set ks. map_of (gCache st) k \<noteq> None"
  shows "released (purge_loop ks st)
           = released st @ bitmaps_of (map (\<lambda>k. (k, the (map_of (gCache st) k))) ks)"
  using assms
proof (induction ks arbitrary: st)
  case Nil
  show ?case by (simp add: bitmaps_of_def)
next
  case (Cons k ks)
  from Cons.prems obtain it where it: "map_of (gCache st) k = Some it"
    by auto
  let ?st1 = "st\<lparr>released := SAFE_RELEASE (bmp it) (released st),
                  gCache := cache_erase k (gCache st)\<rparr>"
  have same: "\<forall>k' \<in> set ks. map_of (gCache ?st1) k' = map_of (gCache st) k'"
    using Cons.prems(1) by (auto simp: map_of_cache_erase)
  then have pre: "\<forall>k' \<in> set ks. map_of (gCache ?st1) k' \<noteq> None"
    using Cons.prems(2) by simp
  have "released (purge_loop ks ?st1)
          = released ?st1 @ bitmaps_of (map (\<lambda>k'. (k', the (map_of (gCache ?st1) k'))) ks)"
    using Cons.prems(1) pre by (intro Cons.IH) simp_all
  also have "map (\<lambda>k'. (k', the (map_of (gCache ?st1) k'))) ks
               = map (\<lambda>k'. (k', the (map_of (gCache st) k'))) ks"
    using same by (intro map_cong) simp_all
  finally show ?case
    using it by (cases "bmp it") (simp_all add: SAFE_RELEASE_def bitmaps_of_def)
qed

lemma mset_bitmaps_of: "mset c = mset c' \<Longrightarrow> mset (bitmaps_of c) = mset (bitmaps_of c')"
proof -
  assume eq: "mset c = mset c'"
  have "mset (bitmaps_of x) = image_mset (\<lambda>p. the (bmp (snd p))) (filter_mset (\<lambda>p. bmp (snd p) \<noteq> None) (mset x))"
    for x
    by (simp add: bitmaps_of_def map_filter_def comp_def)
  then show ?thesis using eq by simp
qed

lemma lookup_entries:
  assumes "distinct (map fst c)" and "distinct ks" and "set ks \<subseteq> fst ` set c"
  shows "mset (map (\<lambda>k. (k, the (map_of c k))) ks) = mset (filter (\<lambda>p. fst p \<in> set ks) c)"
proof -
  have dc: "distinct c"
    using assms(1) by (simp add: distinct_map)
  have d1: "distinct (map (\<lambda>k. (k, the (map_of c k))) ks)"
    using assms(2) by (simp add: distinct_map inj_on_def)
  have d2: "distinct (filter (\<lambda>p. fst p \<in> set ks) c)"
    using dc by simp
  have "set (map (\<lambda>k. (k, the (map_of c k))) ks) = set (filter (\<lambda>p. fst p \<in> set ks) c)"
  proof (intro set_eqI iffI)
    fix p assume "p \<in> set (map (\<lambda>k. (k, the (map_of c k))) ks)"
    then obtain k where k: "k \<in> set ks" "p = (k, the (map_of c k))"
      by auto
    with assms(3) obtain v where "(k, v) \<in> set c"
      by auto
    with assms(1) have "map_of c k = Some v"
      by simp
    with k \<open>(k, v) \<in> set c\<close> show "p \<in> set (filter (\<lambda>p. fst p \<in> set ks) c)"
      by simp
  next
    fix p assume "p \<in> set (filter (\<lambda>p. fst p \<in> set ks) c)"
    then have p: "p \<in> set c" "fst p \<in> set ks"
      by simp_all
    with assms(1) have "map_of c (fst p) = Some (snd p)"
      by simp
    with p show "p \<in> set (map (\<lambda>k. (k, the (map_of c k))) ks)"
      by (auto simp: image_iff intro!: bexI [of _ "fst p"])
  qed
  with d1 d2 show ?thesis
    by (simp only: set_eq_iff_mset_eq_distinct)
qed

lemma removed_entries_filter:
  assumes "gCache st' = filter P (gCache st)"
  shows "removed_entries st st' = filter (\<lambda>p. \<not> P p) (gCache st)"
  unfolding removed_entries_def assms by (intro filter_cong) auto

lemma stamps_member:
  "distinct (map fst c) \<Longrightarrow> (k, im) \<in> set c \<Longrightarrow> (k, t) \<in> set (stamps c) \<Longrightarrow> t = lastUsed im"
proof -
  assume d: "distinct (map fst c)" and m: "(k, im) \<in> set c" and s: "(k, t) \<in> set (stamps c)"
  from s obtain im' where "(k, im') \<in> set c" "t = lastUsed im'"
    by (auto simp: stamps_def)
  with d m show ?thesis
    by (metis map_of_is_SomeI option.inject)
qed

lemma victims_oldest:
  assumes srt: "is_sort srt" and d: "distinct (map fst c)"
    and p: "(k, im) \<in> set c" "k \<in> set (victims srt c)"
    and q: "(k', im') \<in> set c" "k' \<notin> set (victims srt c)"
  shows "lastUsed im \<le> lastUsed im'"
proof -
  let ?sv = "srt (stamps c)"
  let ?n = "length c - kCacheLimit"
  have split: "?sv = take ?n ?sv @ drop ?n ?sv"
    by simp
  have "sorted (map snd (take ?n ?sv) @ map snd (drop ?n ?sv))"
    using is_sort_sorted [OF srt, of "stamps c"] by (simp flip: map_append)
  then have le: "\<forall>x \<in> set (take ?n ?sv). \<forall>y \<in> set (drop ?n ?sv). snd x \<le> snd y"
    by (simp add: sorted_append)
  have sets: "set ?sv = set (stamps c)"
    using srt by (rule is_sort_set)
  from p(2) obtain t where t: "(k, t) \<in> set (take ?n ?sv)"
    by (auto simp: victims_def)
  then have "(k, t) \<in> set (stamps c)"
    using sets by (auto dest: in_set_takeD)
  with d p(1) have t_eq: "t = lastUsed im"
    by (rule stamps_member)
  have "(k', lastUsed im') \<in> set (stamps c)"
    using q(1) by (force simp: stamps_def)
  then have "(k', lastUsed im') \<in> set (take ?n ?sv) \<union> set (drop ?n ?sv)"
    using sets split by (metis set_append)
  moreover have "(k', lastUsed im') \<notin> set (take ?n ?sv)"
    using q(2) by (force simp: victims_def)
  ultimately have "(k', lastUsed im') \<in> set (drop ?n ?sv)"
    by simp
  with le t t_eq show ?thesis
    by fastforce
qed

lemma PurgeOldTiles_released:
  assumes srt: "is_sort srt" and d: "distinct (map fst (gCache st))"
    and over: "kCacheLimit < length (gCache st)"
  shows "mset (released (PurgeOldTiles srt st))
           = mset (released st) + mset (bitmaps_of (removed_entries st (PurgeOldTiles srt st)))"
proof -
  let ?c = "gCache st"
  let ?ks = "victims srt ?c"
  have dk: "distinct ?ks"
    using srt d by (rule victims_distinct)
  have sub: "set ?ks \<subseteq> fst ` set ?c"
    using srt by (rule victims_subset)
  then have present: "\<forall>k \<in> set ?ks. map_of ?c k \<noteq> None"
    by (metis map_of_eq_None_iff subsetD)
  have P: "PurgeOldTiles srt st = purge_loop ?ks st"
    using srt over by (simp add: PurgeOldTiles_eq)
  have "removed_entries st (purge_loop ?ks st) = filter (\<lambda>p. \<not> fst p \<notin> set ?ks) ?c"
    by (rule removed_entries_filter) (rule purge_loop_cache)
  then have R: "removed_entries st (purge_loop ?ks st) = filter (\<lambda>p. fst p \<in> set ?ks) ?c"
    by simp
  have "mset (bitmaps_of (map (\<lambda>k. (k, the (map_of ?c k))) ?ks))
          = mset (bitmaps_of (filter (\<lambda>p. fst p \<in> set ?ks) ?c))"
    using d dk sub by (intro mset_bitmaps_of lookup_entries)
  then show ?thesis
    unfolding P R by (simp add: purge_loop_released [OF dk present])
qed

lemma eviction_facts:
  assumes "is_sort srt" and "distinct (map fst (gCache st))"
    and "kCacheLimit < length (gCache st)"
  shows "length (gCache (PurgeOldTiles srt st)) = kCacheLimit"
    and "length (removed_entries st (PurgeOldTiles srt st)) = length (gCache st) - kCacheLimit"
    and "mset (gCache st)
           = mset (gCache (PurgeOldTiles srt st)) + mset (removed_entries st (PurgeOldTiles srt st))"
    and "\<forall>r \<in> set (removed_entries st (PurgeOldTiles srt st)).
           \<forall>s \<in> set (gCache (PurgeOldTiles srt st)). lastUsed (snd r) \<le> lastUsed (snd s)"
    and "\<forall>r \<in> set (removed_entries st (PurgeOldTiles srt st)).
           map_of (gCache (PurgeOldTiles srt st)) (fst r) = None"
    and "mset (released (PurgeOldTiles srt st))
           = mset (released st) + mset (bitmaps_of (removed_entries st (PurgeOldTiles srt st)))"
proof -
  let ?c = "gCache st"
  let ?ks = "victims srt ?c"
  let ?st' = "PurgeOldTiles srt st"
  have C: "gCache ?st' = filter (\<lambda>p. fst p \<notin> set ?ks) ?c"
    using assms(1,3) by (simp add: PurgeOldTiles_cache)
  have R0: "removed_entries st ?st' = filter (\<lambda>p. \<not> fst p \<notin> set ?ks) ?c"
    using C by (rule removed_entries_filter)
  then have R: "removed_entries st ?st' = filter (\<lambda>p. fst p \<in> set ?ks) ?c"
    by simp
  show len: "length (gCache ?st') = kCacheLimit"
    using PurgeOldTiles_length [OF assms(1,2)] assms(3) by simp
  have "length (filter (\<lambda>p. fst p \<notin> set ?ks) ?c) + length (filter (\<lambda>p. \<not> fst p \<notin> set ?ks) ?c)
          = length ?c"
    by (rule sum_length_filter_compl)
  with len show "length (removed_entries st ?st') = length ?c - kCacheLimit"
    unfolding R0 C by simp
  show "mset ?c = mset (gCache ?st') + mset (removed_entries st ?st')"
    unfolding R0 C by simp
  show "\<forall>r \<in> set (removed_entries st ?st'). \<forall>s \<in> set (gCache ?st').
          lastUsed (snd r) \<le> lastUsed (snd s)"
    unfolding R C using victims_oldest [OF assms(1,2)] by auto
  show "\<forall>r \<in> set (removed_entries st ?st'). map_of (gCache ?st') (fst r) = None"
    unfolding R C by (auto simp: map_of_eq_None_iff)
  show "mset (released ?st') = mset (released st) + mset (bitmaps_of (removed_entries st ?st'))"
    using assms by (rule PurgeOldTiles_released)
qed

lemma crowded_distinct: "distinct (map fst (gCache crowded))"
proof -
  have "inj_on (\<lambda>i. replicate i CHR ''t'') A" for A :: "nat set"
    by (rule inj_onI) (metis length_replicate)
  then show ?thesis
    by (simp add: crowded_def comp_def distinct_map)
qed

lemma crowded_length: "length (gCache crowded) = 300"
  by (simp add: crowded_def)

text \<open>
  Claim C3. When \<open>PurgeOldTiles\<close> runs on a cache with more than \<open>kCacheLimit\<close> entries, for
  every sort the model admits: exactly \<open>size - kCacheLimit\<close> entries are removed and
  \<open>kCacheLimit\<close> stay; the entries that stay are unchanged; every removed entry was last used
  no later than every entry that stays; the key of a removed entry is no longer in the cache, so
  its bytes are gone with it; and \<open>Release\<close> was called on exactly the bitmaps the removed
  entries held.
\<close>

theorem eviction_removes_oldest:
  assumes "is_sort srt" and "distinct (map fst (gCache st))"
    and "kCacheLimit < length (gCache st)"
  shows "length (gCache (PurgeOldTiles srt st)) = kCacheLimit
       \<and> length (removed_entries st (PurgeOldTiles srt st)) = length (gCache st) - kCacheLimit
       \<and> mset (gCache st)
           = mset (gCache (PurgeOldTiles srt st)) + mset (removed_entries st (PurgeOldTiles srt st))
       \<and> (\<forall>r \<in> set (removed_entries st (PurgeOldTiles srt st)).
           \<forall>s \<in> set (gCache (PurgeOldTiles srt st)). lastUsed (snd r) \<le> lastUsed (snd s))
       \<and> (\<forall>r \<in> set (removed_entries st (PurgeOldTiles srt st)).
           map_of (gCache (PurgeOldTiles srt st)) (fst r) = None)
       \<and> mset (released (PurgeOldTiles srt st))
           = mset (released st) + mset (bitmaps_of (removed_entries st (PurgeOldTiles srt st)))"
  using eviction_facts [OF assms] by (intro conjI)

theorem eviction_witness:
  "is_sort (sort_key snd) \<and> distinct (map fst (gCache crowded))
   \<and> kCacheLimit < length (gCache crowded)
   \<and> length (gCache (PurgeOldTiles (sort_key snd) crowded)) = 256
   \<and> length (removed_entries crowded (PurgeOldTiles (sort_key snd) crowded)) = 44"
  using eviction_removes_oldest [OF is_sort_sort_key crowded_distinct]
    is_sort_sort_key crowded_distinct
  by (simp add: crowded_length kCacheLimit_def)

subsection \<open>Jobs per key\<close>

lemma PurgeOldTiles_other:
  "gPool (PurgeOldTiles srt st) = gPool st \<and> hwnd (PurgeOldTiles srt st) = hwnd st
   \<and> enqueued (PurgeOldTiles srt st) = enqueued st
   \<and> decode_calls (PurgeOldTiles srt st) = decode_calls st
   \<and> posted (PurgeOldTiles srt st) = posted st"
  by (simp add: PurgeOldTiles_def Let_def purge_loop_other)






subsection \<open>Entries that wait for bytes\<close>

lemma map_of_cache_assign:
  "map_of (cache_assign k im c) k' =
     (if k' = k \<and> map_of c k \<noteq> None then Some im else map_of c k')"
  by (induction c) (auto simp: cache_assign_def)

lemma map_of_filter_keys:
  "map_of (filter (\<lambda>p. Q (fst p)) c) k = (if Q k then map_of c k else None)"
  by (induction c) auto

lemma purge_loop_lookup:
  "map_of (gCache (purge_loop ks st)) k = (if k \<in> set ks then None else map_of (gCache st) k)"
  using map_of_filter_keys [of "\<lambda>k. k \<notin> set ks" "gCache st" k]
  by (simp add: purge_loop_cache)

lemma PurgeOldTiles_lookup:
  "map_of (gCache (PurgeOldTiles srt st)) k = None
   \<or> map_of (gCache (PurgeOldTiles srt st)) k = map_of (gCache st) k"
  by (simp add: PurgeOldTiles_def Let_def purge_loop_lookup)

lemma miss_lookup:
  assumes "map_of (gCache st) k' = None"
  shows "map_of (gCache (snd (GetOrFetchBitmap srt dec now k' isOverlay st))) k = None
       \<or> map_of (gCache (snd (GetOrFetchBitmap srt dec now k' isOverlay st))) k
            = (if k = k' then Some \<lparr>bytes = [], bmp = None, lastUsed = now\<rparr>
               else map_of (gCache st) k)"
proof -
  let ?st1 = "st\<lparr>gCache := gCache st @ [(k', \<lparr>bytes = [], bmp = None, lastUsed = now\<rparr>)]\<rparr>"
  have "map_of (gCache ?st1) k
          = (if k = k' then Some \<lparr>bytes = [], bmp = None, lastUsed = now\<rparr> else map_of (gCache st) k)"
    using assms by (simp add: map_add_def split: option.split)
  moreover have "gCache (snd (GetOrFetchBitmap srt dec now k' isOverlay st))
                  = gCache (PurgeOldTiles srt ?st1)"
    using assms by (simp add: GetOrFetchBitmap_miss Let_def)
  ultimately show ?thesis
    using PurgeOldTiles_lookup [of srt ?st1 k] by (simp only:)
qed

lemma hit_lookup:
  assumes "map_of (gCache st) k' = Some it"
  shows "map_of (gCache (snd (GetOrFetchBitmap srt dec now k' isOverlay st))) k
           = (if k = k'
              then Some (if bmp it = None \<and> bytes it \<noteq> []
                         then \<lparr>bytes = [], bmp = dec (bytes it), lastUsed = now\<rparr>
                         else it\<lparr>lastUsed := now\<rparr>)
              else map_of (gCache st) k)"
  using assms by (simp add: GetOrFetchBitmap_hit map_of_cache_assign)

lemma fetch_job_lookup:
  "k' \<noteq> k \<Longrightarrow> map_of (gCache (fetch_job k' ex st)) k = map_of (gCache st) k"
  by (simp add: fetch_job_def fetch_commit_def map_of_cache_assign map_of_cache_erase
      split: prod.split option.split)

lemma GetOrFetchBitmap_decode_calls:
  "decode_calls (snd (GetOrFetchBitmap srt dec now k isOverlay st)) =
     (case map_of (gCache st) k of
        None \<Rightarrow> decode_calls st
      | Some it \<Rightarrow> if bmp it = None \<and> bytes it \<noteq> [] then decode_calls st @ [(k, bytes it)]
                   else decode_calls st)"
proof (cases "map_of (gCache st) k")
  case None
  then show ?thesis
    by (simp add: GetOrFetchBitmap_miss Let_def PurgeOldTiles_other)
next
  case (Some it)
  then show ?thesis
    by (simp add: GetOrFetchBitmap_hit)
qed

lemma fetch_job_decode_calls: "decode_calls (fetch_job k ex st) = decode_calls st"
  by (simp add: fetch_job_def fetch_commit_def split: prod.split option.split)

lemma step_no_bytes:
  assumes "no_commit k [e]" and "no_bytes k st"
  shows "no_bytes k (step srt e st) \<and> decodes_for k (step srt e st) = decodes_for k st"
proof (cases e)
  case (Call k' isOverlay now dec)
  show ?thesis
  proof (cases "map_of (gCache st) k'")
    case None
    with miss_lookup [OF None, of srt dec now isOverlay k] assms(2) Call show ?thesis
      by (auto simp: no_bytes_def decodes_for_def GetOrFetchBitmap_decode_calls)
  next
    case (Some it)
    with hit_lookup [OF Some, of srt dec now isOverlay k] assms(2) Call show ?thesis
      by (auto simp: no_bytes_def decodes_for_def GetOrFetchBitmap_decode_calls)
  qed
next
  case (Fetched k' ex)
  with assms show ?thesis
    by (simp add: no_bytes_def decodes_for_def fetch_job_lookup fetch_job_decode_calls)
qed

lemma run_no_bytes:
  "no_commit k es \<Longrightarrow> no_bytes k st
     \<Longrightarrow> no_bytes k (run srt es st) \<and> decodes_for k (run srt es st) = decodes_for k st"
proof (induction es arbitrary: st)
  case Nil
  then show ?case by simp
next
  case (Cons e es)
  from Cons.prems have e: "no_commit k [e]" and es: "no_commit k es"
    by simp_all
  from step_no_bytes [OF e Cons.prems(2), of srt] Cons.IH [OF es, of "step srt e st"]
  show ?case by simp
qed





subsection \<open>Lazy decoding\<close>

lemma fetched_state:
  "run (sort_key snd) fetched_run (startup True True) =
     \<lparr>gCache = [(''t'', \<lparr>bytes = png, bmp = None, lastUsed = 1\<rparr>)], gPool = True, hwnd = True,
      enqueued = [(''t'', True)], released = [], decode_calls = [], posted = 1\<rparr>"
  by (simp add: fetched_run_def GetOrFetchBitmap_def startup_def cache_emplace_def
      PurgeOldTiles_def kCacheLimit_def fetch_job_def HttpGet_def fetch_commit_def
      cache_assign_def png_def Let_def)

text \<open>
  Claim C6 as stated fails: a call that finds an entry with bytes and no bitmap decodes the
  bytes and, when the decoder succeeds, returns the bitmap with \<open>true\<close>.
\<close>

theorem bytes_ready_returns_bitmap:
  "map_option entry_state
     (map_of (gCache (run (sort_key snd) fetched_run (startup True True))) ''t'') = Some BytesReady
   \<and> fst (GetOrFetchBitmap (sort_key snd) (decode_as 7) 2 ''t'' True
        (run (sort_key snd) fetched_run (startup True True))) = (Some 7, True)"
  by (simp add: fetched_state GetOrFetchBitmap_def entry_state_def png_def decode_as_def Let_def)

text \<open>
  Claim C6, amended. A call of \<open>GetOrFetchBitmap\<close> that finds an entry without a bitmap: if
  the entry has no bytes, it returns \<open>(nullptr, false)\<close> and only refreshes \<open>lastUsed\<close>; if
  it has bytes, it calls the decoder on them in this call, stores the decoder's result, clears
  the bytes and returns the result, with \<open>true\<close> exactly when the decoder gave a bitmap.
  Afterwards, as long as no job for the key commits, the decoder is not called for the key
  again.
\<close>

theorem lazy_decode:
  assumes "map_of (gCache st) k = Some it" and "entry_state it \<noteq> Decoded"
  shows "(entry_state it = Pending \<longrightarrow>
            GetOrFetchBitmap srt dec now k isOverlay st =
              ((None, False), st\<lparr>gCache := cache_assign k (it\<lparr>lastUsed := now\<rparr>) (gCache st)\<rparr>))
       \<and> (entry_state it = BytesReady \<longrightarrow>
            GetOrFetchBitmap srt dec now k isOverlay st =
              ((dec (bytes it), dec (bytes it) \<noteq> None),
               st\<lparr>gCache := cache_assign k \<lparr>bytes = [], bmp = dec (bytes it), lastUsed = now\<rparr>
                               (gCache st),
                  decode_calls := decode_calls st @ [(k, bytes it)]\<rparr>))
       \<and> (no_commit k es \<longrightarrow>
            decodes_for k (run srt es (snd (GetOrFetchBitmap srt dec now k isOverlay st)))
              = decodes_for k (snd (GetOrFetchBitmap srt dec now k isOverlay st)))"
proof -
  from assms(2) have nobmp: "bmp it = None"
    by (simp add: entry_state_def split: if_splits)
  have "no_bytes k (snd (GetOrFetchBitmap srt dec now k isOverlay st))"
    using hit_lookup [OF assms(1), of srt dec now isOverlay k] nobmp by (simp add: no_bytes_def)
  then have later: "no_commit k es \<longrightarrow>
      decodes_for k (run srt es (snd (GetOrFetchBitmap srt dec now k isOverlay st)))
        = decodes_for k (snd (GetOrFetchBitmap srt dec now k isOverlay st))"
    using run_no_bytes by blast
  have "entry_state it = Pending \<longrightarrow> bytes it = []"
    and "entry_state it = BytesReady \<longrightarrow> bytes it \<noteq> []"
    using nobmp by (simp_all add: entry_state_def)
  with nobmp later show ?thesis
    by (auto simp: GetOrFetchBitmap_hit [OF assms(1)])
qed

theorem lazy_decode_witness:
  "map_of (gCache (run (sort_key snd) fetched_run (startup True True))) ''t''
     = Some \<lparr>bytes = png, bmp = None, lastUsed = 1\<rparr>
   \<and> entry_state \<lparr>bytes = png, bmp = None, lastUsed = 1\<rparr> = BytesReady
   \<and> no_commit ''t'' later_calls
   \<and> fst (GetOrFetchBitmap (sort_key snd) (decode_as 7) 2 ''t'' True
        (run (sort_key snd) fetched_run (startup True True))) = (Some 7, True)
   \<and> decodes_for ''t''
        (run (sort_key snd) later_calls
           (snd (GetOrFetchBitmap (sort_key snd) (decode_as 7) 2 ''t'' True
              (run (sort_key snd) fetched_run (startup True True))))) = [png]"
proof -
  let ?st = "run (sort_key snd) fetched_run (startup True True)"
  let ?it = "\<lparr>bytes = png, bmp = None, lastUsed = 1\<rparr>"
  let ?st1 = "snd (GetOrFetchBitmap (sort_key snd) (decode_as 7) 2 ''t'' True ?st)"
  have a: "map_of (gCache ?st) ''t'' = Some ?it"
    by (simp add: fetched_state)
  have b: "entry_state ?it = BytesReady"
    by (simp add: entry_state_def png_def)
  then have b': "entry_state ?it \<noteq> Decoded"
    by simp
  have c: "no_commit ''t'' later_calls"
    by (simp add: later_calls_def)
  have d: "decodes_for ''t'' ?st1 = [png]"
    by (simp add: fetched_state GetOrFetchBitmap_def decodes_for_def png_def Let_def)
  note inst = lazy_decode [OF a b', of "sort_key snd" "decode_as 7" 2 True later_calls]
  from inst b have "GetOrFetchBitmap (sort_key snd) (decode_as 7) 2 ''t'' True ?st =
      ((decode_as 7 (bytes ?it), decode_as 7 (bytes ?it) \<noteq> None),
       ?st\<lparr>gCache := cache_assign ''t'' \<lparr>bytes = [], bmp = decode_as 7 (bytes ?it), lastUsed = 2\<rparr>
                        (gCache ?st),
           decode_calls := decode_calls ?st @ [(''t'', bytes ?it)]\<rparr>)"
    by blast
  then have e: "fst (GetOrFetchBitmap (sort_key snd) (decode_as 7) 2 ''t'' True ?st) = (Some 7, True)"
    by (simp add: decode_as_def)
  from inst c have "decodes_for ''t'' (run (sort_key snd) later_calls ?st1) = decodes_for ''t'' ?st1"
    by blast
  with d have f: "decodes_for ''t'' (run (sort_key snd) later_calls ?st1) = [png]"
    by (simp only:)
  from a b c e f show ?thesis
    by (intro conjI)
qed

subsection \<open>Decode failure\<close>




subsection \<open>Fetch results\<close>

lemma read_loop_eq:
  "read_loop out b = (completes b, snd (read_loop out b))
   \<and> (completes b \<longrightarrow> snd (read_loop out b) = out @ delivered b)"
  by (induction b arbitrary: out) simp_all

lemma HttpGet_success:
  "fst (HttpGet ex []) \<longleftrightarrow> (\<exists>b. ex = Response 200 b \<and> completes b \<and> delivered b \<noteq> [])"
proof (cases ex)
  case (Response status b)
  show ?thesis
  proof (cases "status = 200")
    case True
    with Response read_loop_eq [of "[]" b] show ?thesis
      by (cases "read_loop [] b") (auto simp: HttpGet_def)
  next
    case False
    with Response show ?thesis
      by (simp add: HttpGet_def)
  qed
qed (simp_all add: HttpGet_def)

lemma HttpGet_bytes:
  "completes b \<Longrightarrow> HttpGet (Response 200 b) [] = (delivered b \<noteq> [], delivered b)"
  using read_loop_eq [of "[]" b] by (cases "read_loop [] b") (simp add: HttpGet_def)

lemma fetch_job_failed:
  "\<not> fst (HttpGet ex []) \<Longrightarrow>
   fetch_job k ex st =
     (if map_of (gCache st) k = None then st else st\<lparr>gCache := cache_erase k (gCache st)\<rparr>)"
  by (cases "HttpGet ex []") (auto simp: fetch_job_def fetch_commit_def)

lemma fetch_job_absent: "map_of (gCache st) k = None \<Longrightarrow> fetch_job k ex st = st"
  by (simp add: fetch_job_def fetch_commit_def split: prod.split)



lemma requested_state:
  "run (sort_key snd) [Call ''t'' True 1 decode_fails] (startup True True) =
     \<lparr>gCache = [(''t'', \<lparr>bytes = [], bmp = None, lastUsed = 1\<rparr>)], gPool = True, hwnd = True,
      enqueued = [(''t'', True)], released = [], decode_calls = [], posted = 0\<rparr>"
  by (simp add: GetOrFetchBitmap_def startup_def cache_emplace_def PurgeOldTiles_def
      kCacheLimit_def Let_def)


text \<open>
  Claim C10. \<open>HttpGet\<close> returns \<open>true\<close> only for a response with status 200 whose body was
  read to its end and delivered at least one byte. For a response with status 200 and an
  empty body it returns \<open>false\<close>, and the job then does what it does after a network error:
  it removes the entry of its key and posts no \<open>WM_TILE_READY\<close>.
\<close>

theorem empty_body_is_failure:
  "(fst (HttpGet ex []) \<longrightarrow>
      (\<exists>b. ex = Response 200 b \<and> completes b \<and> delivered b \<noteq> []
           \<and> snd (HttpGet ex []) = delivered b))
   \<and> (completes b \<and> delivered b = [] \<longrightarrow>
        HttpGet (Response 200 b) [] = (False, [])
        \<and> fetch_job k (Response 200 b) st = fetch_job k SendOrReceiveFailed st
        \<and> map_of (gCache (fetch_job k (Response 200 b) st)) k = None
        \<and> posted (fetch_job k (Response 200 b) st) = posted st)"
proof -
  have one: "fst (HttpGet ex []) \<longrightarrow>
      (\<exists>b. ex = Response 200 b \<and> completes b \<and> delivered b \<noteq> []
           \<and> snd (HttpGet ex []) = delivered b)"
    using HttpGet_success [of ex] HttpGet_bytes by fastforce
  have two: "HttpGet (Response 200 b) [] = (False, [])
        \<and> fetch_job k (Response 200 b) st = fetch_job k SendOrReceiveFailed st
        \<and> map_of (gCache (fetch_job k (Response 200 b) st)) k = None
        \<and> posted (fetch_job k (Response 200 b) st) = posted st"
    if "completes b" and "delivered b = []"
  proof -
    have h: "HttpGet (Response 200 b) [] = (False, [])"
      using that by (simp add: HttpGet_bytes)
    then have f1: "\<not> fst (HttpGet (Response 200 b) [])"
      by simp
    have f2: "\<not> fst (HttpGet SendOrReceiveFailed [])"
      by (simp add: HttpGet_def)
    show ?thesis
      using h by (simp add: fetch_job_failed [OF f1] fetch_job_failed [OF f2] map_of_cache_erase)
  qed
  from one two show ?thesis
    by blast
qed

theorem empty_body_witness:
  "fst (HttpGet (Response 200 (Chunk 4 png EndOfData)) [])
   \<and> snd (HttpGet (Response 200 (Chunk 4 png EndOfData)) []) = png
   \<and> completes (Chunk 8 [] EndOfData) \<and> delivered (Chunk 8 [] EndOfData) = []
   \<and> HttpGet (Response 200 (Chunk 8 [] EndOfData)) [] = (False, [])
   \<and> map_of (gCache (fetch_job ''t'' (Response 200 (Chunk 8 [] EndOfData))
        (run (sort_key snd) [Call ''t'' True 1 decode_fails] (startup True True)))) ''t'' = None
   \<and> posted (fetch_job ''t'' (Response 200 (Chunk 8 [] EndOfData))
        (run (sort_key snd) [Call ''t'' True 1 decode_fails] (startup True True))) = 0"
proof -
  let ?st = "run (sort_key snd) [Call ''t'' True 1 decode_fails] (startup True True)"
  let ?ok = "Response 200 (Chunk 4 png EndOfData)"
  let ?empty = "Chunk 8 [] EndOfData"
  have a: "fst (HttpGet ?ok [])"
    by (simp add: HttpGet_def png_def)
  have b: "completes ?empty" and c: "delivered ?empty = []"
    by simp_all
  have p: "posted ?st = 0"
    unfolding requested_state by simp
  note inst = empty_body_is_failure [of ?ok ?empty "''t''" ?st]
  from inst a obtain b' where "?ok = Response 200 b'" "snd (HttpGet ?ok []) = delivered b'"
    by blast
  then have d: "snd (HttpGet ?ok []) = png"
    by (auto simp: png_def)
  from inst b c have e: "HttpGet (Response 200 ?empty) [] = (False, [])"
    and f: "map_of (gCache (fetch_job ''t'' (Response 200 ?empty) ?st)) ''t'' = None"
    and "posted (fetch_job ''t'' (Response 200 ?empty) ?st) = posted ?st"
    by blast+
  with p have g: "posted (fetch_job ''t'' (Response 200 ?empty) ?st) = 0"
    by (simp only:)
  from a d b c e f g show ?thesis
    by (intro conjI)
qed

subsection \<open>One job per key while the entry is in the cache\<close>

lemma PurgeOldTiles_subset: "set (gCache (PurgeOldTiles srt st)) \<subseteq> set (gCache st)"
  by (simp add: PurgeOldTiles_def Let_def purge_loop_cache)

lemma set_cache_assign: "set (cache_assign k im c) \<subseteq> insert (k, im) (set c)"
  by (auto simp: cache_assign_def)

lemma set_cache_erase: "set (cache_erase k c) \<subseteq> set c"
  by (auto simp: cache_erase_def)






lemma fetch_job_stamps:
  assumes "p \<in> set (gCache (fetch_job k ex s))"
  shows "\<exists>q \<in> set (gCache s). lastUsed (snd q) = lastUsed (snd p)"
proof (cases "map_of (gCache s) k")
  case None
  with assms show ?thesis
    by (auto simp: fetch_job_absent)
next
  case (Some it)
  then have it: "(k, it) \<in> set (gCache s)"
    by (rule map_of_SomeD)
  show ?thesis
  proof (cases "fst (HttpGet ex [])")
    case True
    then have "gCache (fetch_job k ex s) = cache_assign k (it\<lparr>bytes := snd (HttpGet ex [])\<rparr>) (gCache s)"
      using Some by (cases "HttpGet ex []") (simp add: fetch_job_def fetch_commit_def)
    with assms set_cache_assign [of k "it\<lparr>bytes := snd (HttpGet ex [])\<rparr>" "gCache s"]
    have "p = (k, it\<lparr>bytes := snd (HttpGet ex [])\<rparr>) \<or> p \<in> set (gCache s)"
      by auto
    with it show ?thesis
      by force
  next
    case False
    then have "gCache (fetch_job k ex s) = cache_erase k (gCache s)"
      using Some by (simp add: fetch_job_failed)
    with assms set_cache_erase [of k "gCache s"] show ?thesis
      by auto
  qed
qed

lemma step_stamps_before:
  assumes "\<forall>p \<in> set (gCache s). lastUsed (snd p) < t" and "calls_before t [e]"
  shows "\<forall>p \<in> set (gCache (step srt e s)). lastUsed (snd p) < t"
proof (cases e)
  case (Fetched k ex)
  with assms(1) fetch_job_stamps [of _ k ex s] show ?thesis
    by fastforce
next
  case (Call k isOverlay now dec)
  with assms(2) have now: "now < t"
    by simp
  show ?thesis
  proof (cases "map_of (gCache s) k")
    case None
    let ?s1 = "s\<lparr>gCache := gCache s @ [(k, \<lparr>bytes = [], bmp = None, lastUsed = now\<rparr>)]\<rparr>"
    have "gCache (step srt e s) = gCache (PurgeOldTiles srt ?s1)"
      using Call None by (simp add: GetOrFetchBitmap_miss Let_def)
    moreover have "\<forall>p \<in> set (gCache ?s1). lastUsed (snd p) < t"
      using assms(1) now by auto
    ultimately show ?thesis
      using PurgeOldTiles_subset [of srt ?s1] by auto
  next
    case (Some it)
    let ?new = "if bmp it = None \<and> bytes it \<noteq> []
                then \<lparr>bytes = [], bmp = dec (bytes it), lastUsed = now\<rparr>
                else it\<lparr>lastUsed := now\<rparr>"
    have "gCache (step srt e s) = cache_assign k ?new (gCache s)"
      using Call Some by (simp add: GetOrFetchBitmap_hit)
    moreover have "lastUsed ?new < t"
      using now by simp
    ultimately show ?thesis
      using assms(1) set_cache_assign [of k ?new "gCache s"] by fastforce
  qed
qed

lemma run_stamps_before:
  "\<forall>p \<in> set (gCache s). lastUsed (snd p) < t \<Longrightarrow> calls_before t es
     \<Longrightarrow> \<forall>p \<in> set (gCache (run srt es s)). lastUsed (snd p) < t"
proof (induction es arbitrary: s)
  case Nil
  then show ?case by simp
next
  case (Cons e es)
  from Cons.prems(2) have e: "calls_before t [e]" and es: "calls_before t es"
    by simp_all
  from Cons.IH [OF step_stamps_before [OF Cons.prems(1) e] es] show ?case
    by simp
qed

lemma reachable_stamps_before:
  "calls_before t es \<Longrightarrow> \<forall>p \<in> set (gCache (run srt es (startup pool h))). lastUsed (snd p) < t"
  by (rule run_stamps_before) (simp_all add: startup_def)







section \<open>Properties of the projection and of the overlay zoom\<close>

lemma scale_in_range:
  assumes "0 \<le> z" and "z \<le> 22"
  shows "shl1 z = Some (2 ^ nat z)" and "int_mul TILE_SIZE (2 ^ nat z) = Some (256 * 2 ^ nat z)"
proof -
  show "shl1 z = Some (2 ^ nat z)"
    using assms by (simp add: shl1_def)
  have "nat z \<le> 22"
    using assms by simp
  then have "(2::int) ^ nat z \<le> 2 ^ 22"
    by (intro power_increasing) simp_all
  then have le: "(2::int) ^ nat z \<le> 4194304"
    by simp
  have ge: "(0::int) \<le> 2 ^ nat z"
    by simp
  from le ge have "in_int (256 * 2 ^ nat z)"
    unfolding in_int_def by linarith
  then show "int_mul TILE_SIZE (2 ^ nat z) = Some (256 * 2 ^ nat z)"
    by (simp add: int_mul_def TILE_SIZE_def)
qed

lemma longitude_round_trip:
  assumes "0 \<le> z" and "z \<le> 22"
  shows "\<exists>wx. LonLatToWorldX lon z = Some wx \<and> WorldXToLon wx z = Some lon"
proof -
  define s :: real where "s = 256 * 2 ^ nat z"
  have s: "s \<noteq> 0"
    by (simp add: s_def)
  have fwd: "LonLatToWorldX lon z = Some (s * ((lon + 180) / 360))"
    using scale_in_range [OF assms] by (simp add: LonLatToWorldX_def s_def)
  have bwd: "WorldXToLon wx z = Some (wx / s * 360 - 180)" for wx
    using scale_in_range [OF assms] by (simp add: WorldXToLon_def s_def)
  have "s * ((lon + 180) / 360) / s * 360 - 180 = lon"
    using s by (simp add: field_simps)
  with bwd [of "s * ((lon + 180) / 360)"]
  have "WorldXToLon (s * ((lon + 180) / 360)) z = Some lon"
    by (simp only:)
  with fwd show ?thesis
    by blast
qed

lemma latitude_composition:
  assumes "0 \<le> z" and "z \<le> 22"
  shows "\<exists>wy. LonLatToWorldY lat z = Some wy
           \<and> WorldYToLat wy z =
               Some (180 / pi * arctan (sinh (pi +
                  ln (tan (pi / 4 + std_clamp lat (- 85.05112878) 85.05112878 * pi / 180 / 2)))))"
proof -
  define sy where "sy = ln (tan (pi / 4 + std_clamp lat (- 85.05112878) 85.05112878 * pi / 180 / 2))"
  define s :: real where "s = 256 * 2 ^ nat z"
  have s: "s \<noteq> 0"
    by (simp add: s_def)
  have fwd: "LonLatToWorldY lat z = Some (s * (1 - sy / pi) / 2)"
    using scale_in_range [OF assms]
    by (simp add: LonLatToWorldY_def Let_def TILE_SIZE_def s_def sy_def)
  have bwd: "WorldYToLat wy z = Some (180 / pi * arctan (sinh (2 * (1 - wy / s) * pi)))" for wy
    using scale_in_range [OF assms] by (simp add: WorldYToLat_def Let_def s_def)
  have "2 * (1 - (s * (1 - sy / pi) / 2) / s) * pi = pi + sy"
    using s by (simp add: field_simps)
  with bwd [of "s * (1 - sy / pi) / 2"]
  have "WorldYToLat (s * (1 - sy / pi) / 2) z = Some (180 / pi * arctan (sinh (pi + sy)))"
    by (simp only:)
  with fwd show ?thesis
    unfolding sy_def by blast
qed

lemma sinh_pi_gt_1: "1 < sinh (pi::real)"
proof -
  have "1 + pi \<le> exp pi"
    by (rule exp_ge_add_one_self)
  with pi_ge_two have e1: "3 \<le> exp pi"
    by linarith
  have "exp (- pi) < exp (0::real)"
    by (subst exp_less_cancel_iff) simp
  then have e2: "exp (- pi) < (1::real)"
    by simp
  from e1 e2 have "2 < exp pi - exp (- pi)"
    by linarith
  then show ?thesis
    unfolding sinh_field_def by simp
qed

text \<open>
  Claim C4. The round trip of the latitude does not hold in the code, already in exact real
  arithmetic: \<open>WorldYToLat\<close> computes \<open>y = 2 (1 - wy / s)\<close> where the inverse of
  \<open>LonLatToWorldY\<close> needs \<open>1 - 2 wy / s\<close>. At latitude 0 and zoom 6 the forward projection
  gives 8192, and \<open>WorldYToLat\<close> sends 8192 back to more than 45 degrees.
\<close>

theorem latitude_round_trip_fails:
  "LonLatToWorldY 0 6 = Some 8192
   \<and> WorldYToLat 8192 6 = Some (180 / pi * arctan (sinh pi))
   \<and> 45 < 180 / pi * arctan (sinh pi)"
proof -
  have fwd: "LonLatToWorldY 0 6 = Some 8192"
    by (simp add: LonLatToWorldY_def shl1_def TILE_SIZE_def std_clamp_def tan_45 Let_def)
  have bwd: "WorldYToLat 8192 6 = Some (180 / pi * arctan (sinh pi))"
    by (simp add: WorldYToLat_def shl1_def int_mul_def in_int_def TILE_SIZE_def Let_def)
  have "arctan 1 < arctan (sinh pi)"
    using sinh_pi_gt_1 by (simp only: arctan_less_iff)
  then have "pi / 4 < arctan (sinh pi)"
    by (simp add: arctan_one)
  then have "45 * pi < 180 * arctan (sinh pi)"
    by simp
  then have "45 < 180 / pi * arctan (sinh pi)"
    using pi_gt_zero by (simp add: field_simps)
  with fwd bwd show ?thesis
    by (intro conjI)
qed

text \<open>
  Claim C5. For every zoom \<open>Z\<close> whose floor is an \<open>int\<close>, the candidate zoom of
  \<open>drawJmaOverlay\<close> is \<open>floor Z - 1\<close> when \<open>Z\<close> is integral and \<open>floor Z\<close> otherwise, and the
  zoom used is the candidate clamped into 4..13; the zooms 7.0 and 7.3 give the candidates
  6 and 7.
\<close>

theorem overlay_zoom_rule:
  assumes "- 2147483648 < Z" and "Z < 2147483648"
  shows "zJMA_candidate Z = Some (spec_overlay_candidate Z)
       \<and> zJMA Z = Some (spec_overlay_zoom Z)
       \<and> 4 \<le> spec_overlay_zoom Z \<and> spec_overlay_zoom Z \<le> 13
       \<and> zJMA_candidate 7.0 = Some 6 \<and> zJMA_candidate 7.3 = Some 7"
proof -
  have lo: "- 2147483648 \<le> \<lfloor>Z\<rfloor>" and hi: "\<lfloor>Z\<rfloor> \<le> 2147483647"
    using assms by linarith+
  then have fl: "to_int (real_of_int \<lfloor>Z\<rfloor>) = Some \<lfloor>Z\<rfloor>"
    by (simp add: to_int_def in_int_def)
  have cand: "zJMA_candidate Z = Some (spec_overlay_candidate Z)"
  proof (cases "Z = real_of_int \<lfloor>Z\<rfloor>")
    case True
    with assms(1) have "- 2147483648 < \<lfloor>Z\<rfloor>"
      by linarith
    with hi True fl show ?thesis
      by (simp add: zJMA_candidate_def spec_overlay_candidate_def int_sub_def in_int_def)
  next
    case False
    with fl show ?thesis
      by (simp add: zJMA_candidate_def spec_overlay_candidate_def)
  qed
  have "GetJmaZoomLevel c = max 4 (min 13 c)" for c
    by (simp add: GetJmaZoomLevel_def std_clamp_def MIN_DL_ZOOM_def MAX_DL_ZOOM_def)
  with cand have used: "zJMA Z = Some (spec_overlay_zoom Z)"
    by (simp add: zJMA_def spec_overlay_zoom_def)
  have range: "4 \<le> spec_overlay_zoom Z" "spec_overlay_zoom Z \<le> 13"
    by (simp_all add: spec_overlay_zoom_def)
  have seven: "zJMA_candidate 7.0 = Some 6"
    by (simp add: zJMA_candidate_def to_int_def in_int_def int_sub_def)
  have frac: "zJMA_candidate 7.3 = Some 7"
    by (simp add: zJMA_candidate_def to_int_def in_int_def)
  from cand used range seven frac show ?thesis
    by (intro conjI)
qed

theorem overlay_zoom_witness:
  "(- 2147483648 :: real) < 2 \<and> (2 :: real) < 2147483648
   \<and> zJMA_candidate 2 = Some 1 \<and> zJMA 2 = Some 4"
proof -
  have a: "(- 2147483648 :: real) < 2" and b: "(2 :: real) < 2147483648"
    by simp_all
  have "spec_overlay_candidate 2 = 1" and "spec_overlay_zoom 2 = 4"
    by (simp_all add: spec_overlay_zoom_def spec_overlay_candidate_def)
  with overlay_zoom_rule [OF a b] a b show ?thesis
    by simp
qed

section \<open>Properties of single precision rounding\<close>















section \<open>Properties of the animation\<close>





























end
